theory Spec2Isabelle
  imports Complex_Main "HOL-Library.Word" "HOL-Library.Log_Nat"
begin

unbundle bit_operations_syntax

section \<open>Data model of libosmo-fl2k.c\<close>

text \<open>
  The return codes of the library. The enum itself is declared in the public header;
  libosmo-fl2k.c relies on \<open>FL2K_SUCCESS\<close> being 0 (\<open>if (!r)\<close>, \<open>return 0\<close>) and on
  every \<open>FL2K_ERROR_*\<close> being negative (\<open>if (r < 0)\<close>).
\<close>

datatype fl2k_error =
    FL2K_SUCCESS
  | FL2K_ERROR_INVALID_PARAM
  | FL2K_ERROR_NO_DEVICE
  | FL2K_ERROR_NOT_FOUND
  | FL2K_ERROR_BUSY
  | FL2K_ERROR_TIMEOUT
  | FL2K_ERROR_NO_MEM
  | FL2K_ERROR_OTHER

datatype fl2k_async_status = FL2K_INACTIVE | FL2K_CANCELING | FL2K_RUNNING

datatype fl2k_buf_state = BUF_EMPTY | BUF_SUBMITTED | BUF_FILLED

type_synonym byte = "8 word"

subsection \<open>The USB library as an environment\<close>

text \<open>
  Every call into libusb, libc or pthreads is recorded in \<open>calls\<close>; what the call
  returns is decided by the environment: \<open>reply n\<close> is the answer to the call at position
  \<open>n\<close> of the record, an \<open>int\<close> return value and, for a control read, the four bytes
  found in the caller's buffer afterwards (whatever the stack held when the transfer wrote
  nothing). For \<open>malloc\<close> a negative answer stands for the null pointer. Signalling the
  condition variable returns nothing and is only recorded. Messages printed to stderr are
  collected in \<open>diag\<close>.
\<close>

datatype thread_fn = USB_WORKER | SAMPLE_WORKER

datatype usb_call =
    CtrlIn "16 word"
  | CtrlOut "16 word" "32 word"
  | SubmitTransfer nat
  | CondSignal
  | Malloc nat
  | ThreadCreate thread_fn

datatype diag_msg =
    ShortRead
  | RateNotPossible
  | ResubmittedTransfer
  | CbTransferStatus
  | PaletteWriteError nat
  | PaletteMismatch nat
  | SubmitFailed nat
  | ThreadSpawnError thread_fn

type_synonym data4 = "byte \<times> byte \<times> byte \<times> byte"

record usb_env =
  calls :: "usb_call list"
  reply :: "nat \<Rightarrow> int \<times> data4"
  diag :: "diag_msg list"

definition libusb_call :: "usb_call \<Rightarrow> usb_env \<Rightarrow> (int \<times> data4) \<times> usb_env" where
  "libusb_call c env = (reply env (length (calls env)), env\<lparr>calls := calls env @ [c]\<rparr>)"

definition pthread_cond_signal :: "usb_env \<Rightarrow> usb_env" where
  "pthread_cond_signal env = env\<lparr>calls := calls env @ [CondSignal]\<rparr>"

definition fprintf_stderr :: "diag_msg \<Rightarrow> usb_env \<Rightarrow> usb_env" where
  "fprintf_stderr m env = env\<lparr>diag := diag env @ [m]\<rparr>"

subsection \<open>Transfers and the device handle\<close>

datatype libusb_transfer_status =
    LIBUSB_TRANSFER_COMPLETED
  | LIBUSB_TRANSFER_ERROR
  | LIBUSB_TRANSFER_TIMED_OUT
  | LIBUSB_TRANSFER_CANCELLED
  | LIBUSB_TRANSFER_STALL
  | LIBUSB_TRANSFER_NO_DEVICE
  | LIBUSB_TRANSFER_OVERFLOW

record fl2k_xfer_info =
  seq :: "64 word"
  state :: fl2k_buf_state

text \<open>
  A \<open>struct libusb_transfer\<close> as far as the library touches it. \<open>user_data\<close> points
  to the slot's \<open>fl2k_xfer_info\<close> (\<open>None\<close> is the null pointer).
\<close>

record libusb_transfer =
  status :: libusb_transfer_status
  buffer :: "byte list"
  user_data :: "fl2k_xfer_info option"

datatype fl2k_mode = FL2K_MODE_MULTICHAN | FL2K_MODE_SINGLECHAN | FL2K_MODE_OTHER int

text \<open>
  \<open>struct fl2k_dev\<close>. Function pointers and the callback context are opaque numbers;
  \<open>rate\<close> is a C \<open>double\<close>, modelled by the rational number it denotes.
\<close>

record fl2k_dev =
  xfer_num :: "32 word"
  xfer_buf_num :: "32 word"
  xfer_buf_len :: "32 word"
  xfer :: "libusb_transfer list option"
  cb :: "nat option"
  cb_ctx :: "nat option"
  async_status :: fl2k_async_status
  async_cancel :: int
  mode :: fl2k_mode
  enabled_chans :: byte
  rate :: rat
  dev_lost :: int
  underflow_cnt :: "32 word"

section \<open>Register I/O\<close>

text \<open>
  \<open>fl2k_read_reg\<close>. The \<open>int\<close> result of \<open>libusb_control_transfer\<close> is stored in
  \<open>uint32_t r\<close> and compared with \<open>sizeof(data)\<close> as an unsigned number. The second
  argument says whether \<open>val\<close> is non-null; the second component of the result is what
  has been stored through \<open>val\<close>, if anything.
\<close>

definition fl2k_read_reg ::
  "fl2k_dev option \<Rightarrow> 16 word \<Rightarrow> bool \<Rightarrow> usb_env \<Rightarrow> fl2k_error \<times> 32 word option \<times> usb_env" where
  "fl2k_read_reg dev reg val env =
     (if dev = None \<or> \<not> val then (FL2K_ERROR_INVALID_PARAM, None, env)
      else
        let ((ret, d0, d1, d2, d3), env1) = libusb_call (CtrlIn reg) env;
            r = (word_of_int ret :: 32 word)
        in if r < 4 then (FL2K_ERROR_OTHER, None, fprintf_stderr ShortRead env1)
           else (FL2K_SUCCESS,
                 Some (push_bit 24 (ucast d3) OR push_bit 16 (ucast d2) OR
                       push_bit 8 (ucast d1) OR ucast d0),
                 env1))"

text \<open>\<open>fl2k_write_reg\<close>: anything but a complete four-byte transfer is an error.\<close>

definition fl2k_write_reg ::
  "fl2k_dev option \<Rightarrow> 16 word \<Rightarrow> 32 word \<Rightarrow> usb_env \<Rightarrow> fl2k_error \<times> usb_env" where
  "fl2k_write_reg dev reg val env =
     (if dev = None then (FL2K_ERROR_INVALID_PARAM, env)
      else
        let ((ret, _), env1) = libusb_call (CtrlOut reg val) env;
            r = (word_of_int ret :: 32 word)
        in if r \<noteq> 4 then (FL2K_ERROR_OTHER, env1) else (FL2K_SUCCESS, env1))"

text \<open>
  The handle as \<open>fl2k_open\<close> leaves it: the struct is cleared with \<open>memset\<close> and
  \<open>dev_lost\<close> is reset to 0 once the device has been initialised.
\<close>

definition opened_dev :: fl2k_dev where
  "opened_dev =
     \<lparr>xfer_num = 0, xfer_buf_num = 0, xfer_buf_len = 0, xfer = None, cb = None, cb_ctx = None,
      async_status = FL2K_INACTIVE, async_cancel = 0, mode = FL2K_MODE_MULTICHAN,
      enabled_chans = 0, rate = 0, dev_lost = 0, underflow_cnt = 0\<rparr>"

text \<open>An environment in which every libusb call returns \<open>r\<close> and leaves \<open>d\<close> in the buffer.\<close>

definition const_env :: "int \<Rightarrow> data4 \<Rightarrow> usb_env" where
  "const_env r d = \<lparr>calls = [], reply = (\<lambda>n. (r, d)), diag = []\<rparr>"

section \<open>Buffer format conversion\<close>

text \<open>
  The conversion functions only ever store into \<open>out\<close>; what they store does not depend
  on what \<open>out\<close> holds. Each function is therefore given as the sequence of its stores
  \<open>out[p] = v\<close>, in program order, and \<open>store\<close> carries the sequence out on the buffer.
  \<open>char\<close> arithmetic is modulo 256. The loop counter \<open>i\<close> is an \<open>unsigned int\<close>; when
  \<open>len\<close> is a multiple of the group size the loop ends with \<open>i = len\<close> and \<open>i\<close> never
  wraps, so \<open>i\<close> and \<open>j\<close> are natural numbers here.
\<close>

type_synonym store_op = "nat \<times> byte"

definition store :: "store_op list \<Rightarrow> byte list \<Rightarrow> byte list" where
  "store ws out = fold (\<lambda>(p, v) buf. buf[p := v]) ws out"

text \<open>One iteration of the loop of \<open>fl2k_convert_r\<close>.\<close>

definition convert_r_body :: "byte list \<Rightarrow> byte \<Rightarrow> nat \<Rightarrow> nat \<Rightarrow> store_op list" where
  "convert_r_body inp offset i j =
     [(i + 6, inp ! j + offset),
      (i + 1, inp ! (j + 1) + offset),
      (i + 12, inp ! (j + 2) + offset),
      (i + 15, inp ! (j + 3) + offset),
      (i + 10, inp ! (j + 4) + offset),
      (i + 21, inp ! (j + 5) + offset),
      (i + 16, inp ! (j + 6) + offset),
      (i + 19, inp ! (j + 7) + offset)]"

function convert_r_loop :: "byte list \<Rightarrow> nat \<Rightarrow> byte \<Rightarrow> nat \<Rightarrow> nat \<Rightarrow> store_op list" where
  "convert_r_loop inp len offset i j =
     (if i < len then convert_r_body inp offset i j @ convert_r_loop inp len offset (i + 24) (j + 8)
      else [])"
  by pat_completeness auto
termination
  by (relation "measure (\<lambda>(inp, len, offset, i, j). len - i)") auto

text \<open>\<open>fl2k_convert_r\<close>: nothing happens when \<open>in\<close> or \<open>out\<close> is null.\<close>

definition fl2k_convert_r ::
  "byte list option \<Rightarrow> byte list option \<Rightarrow> 32 word \<Rightarrow> byte \<Rightarrow> byte list option" where
  "fl2k_convert_r out inp len offset =
     (case (inp, out) of
        (Some src, Some dst) \<Rightarrow> Some (store (convert_r_loop src (unat len) offset 0 0) dst)
      | _ \<Rightarrow> out)"

definition convert_g_body :: "byte list \<Rightarrow> byte \<Rightarrow> nat \<Rightarrow> nat \<Rightarrow> store_op list" where
  "convert_g_body inp offset i j =
     [(i + 5, inp ! j + offset),
      (i + 0, inp ! (j + 1) + offset),
      (i + 3, inp ! (j + 2) + offset),
      (i + 14, inp ! (j + 3) + offset),
      (i + 9, inp ! (j + 4) + offset),
      (i + 20, inp ! (j + 5) + offset),
      (i + 23, inp ! (j + 6) + offset),
      (i + 18, inp ! (j + 7) + offset)]"

function convert_g_loop :: "byte list \<Rightarrow> nat \<Rightarrow> byte \<Rightarrow> nat \<Rightarrow> nat \<Rightarrow> store_op list" where
  "convert_g_loop inp len offset i j =
     (if i < len then convert_g_body inp offset i j @ convert_g_loop inp len offset (i + 24) (j + 8)
      else [])"
  by pat_completeness auto
termination
  by (relation "measure (\<lambda>(inp, len, offset, i, j). len - i)") auto

definition fl2k_convert_g ::
  "byte list option \<Rightarrow> byte list option \<Rightarrow> 32 word \<Rightarrow> byte \<Rightarrow> byte list option" where
  "fl2k_convert_g out inp len offset =
     (case (inp, out) of
        (Some src, Some dst) \<Rightarrow> Some (store (convert_g_loop src (unat len) offset 0 0) dst)
      | _ \<Rightarrow> out)"

definition convert_b_body :: "byte list \<Rightarrow> byte \<Rightarrow> nat \<Rightarrow> nat \<Rightarrow> store_op list" where
  "convert_b_body inp offset i j =
     [(i + 4, inp ! j + offset),
      (i + 7, inp ! (j + 1) + offset),
      (i + 2, inp ! (j + 2) + offset),
      (i + 13, inp ! (j + 3) + offset),
      (i + 8, inp ! (j + 4) + offset),
      (i + 11, inp ! (j + 5) + offset),
      (i + 22, inp ! (j + 6) + offset),
      (i + 17, inp ! (j + 7) + offset)]"

function convert_b_loop :: "byte list \<Rightarrow> nat \<Rightarrow> byte \<Rightarrow> nat \<Rightarrow> nat \<Rightarrow> store_op list" where
  "convert_b_loop inp len offset i j =
     (if i < len then convert_b_body inp offset i j @ convert_b_loop inp len offset (i + 24) (j + 8)
      else [])"
  by pat_completeness auto
termination
  by (relation "measure (\<lambda>(inp, len, offset, i, j). len - i)") auto

definition fl2k_convert_b ::
  "byte list option \<Rightarrow> byte list option \<Rightarrow> 32 word \<Rightarrow> byte \<Rightarrow> byte list option" where
  "fl2k_convert_b out inp len offset =
     (case (inp, out) of
        (Some src, Some dst) \<Rightarrow> Some (store (convert_b_loop src (unat len) offset 0 0) dst)
      | _ \<Rightarrow> out)"

text \<open>\<open>fl2k_convert_singlechan\<close> swaps the two 32-bit words of every group of eight bytes.\<close>

definition convert_singlechan_body :: "byte list \<Rightarrow> byte \<Rightarrow> nat \<Rightarrow> store_op list" where
  "convert_singlechan_body inp offset i =
     [(i + 0, inp ! (i + 4) + offset),
      (i + 1, inp ! (i + 5) + offset),
      (i + 2, inp ! (i + 6) + offset),
      (i + 3, inp ! (i + 7) + offset),
      (i + 4, inp ! (i + 0) + offset),
      (i + 5, inp ! (i + 1) + offset),
      (i + 6, inp ! (i + 2) + offset),
      (i + 7, inp ! (i + 3) + offset)]"

function convert_singlechan_loop :: "byte list \<Rightarrow> nat \<Rightarrow> byte \<Rightarrow> nat \<Rightarrow> store_op list" where
  "convert_singlechan_loop inp len offset i =
     (if i < len then convert_singlechan_body inp offset i @ convert_singlechan_loop inp len offset (i + 8)
      else [])"
  by pat_completeness auto
termination
  by (relation "measure (\<lambda>(inp, len, offset, i). len - i)") auto

definition fl2k_convert_singlechan ::
  "byte list option \<Rightarrow> byte list option \<Rightarrow> 32 word \<Rightarrow> byte \<Rightarrow> byte list option" where
  "fl2k_convert_singlechan out inp len offset =
     (case (inp, out) of
        (Some src, Some dst) \<Rightarrow> Some (store (convert_singlechan_loop src (unat len) offset 0) dst)
      | _ \<Rightarrow> out)"

declare convert_r_loop.simps [simp del] convert_g_loop.simps [simp del]
  convert_b_loop.simps [simp del] convert_singlechan_loop.simps [simp del]

text \<open>
  The multi-channel branch of \<open>fl2k_sample_worker\<close>: the three conversions, in this
  order, on the same transfer buffer.
\<close>

definition convert_multichan ::
  "byte list option \<Rightarrow> byte list option \<Rightarrow> byte list option \<Rightarrow> byte list option \<Rightarrow>
     32 word \<Rightarrow> byte \<Rightarrow> byte list option" where
  "convert_multichan out r_buf g_buf b_buf len offset =
     fl2k_convert_b (fl2k_convert_g (fl2k_convert_r out r_buf len offset) g_buf len offset)
       b_buf len offset"

text \<open>The offsets of the three channels inside a group of 24 bytes, in input order.\<close>

definition r_offsets :: "nat list" where "r_offsets = [6, 1, 12, 15, 10, 21, 16, 19]"
definition g_offsets :: "nat list" where "g_offsets = [5, 0, 3, 14, 9, 20, 23, 18]"
definition b_offsets :: "nat list" where "b_offsets = [4, 7, 2, 13, 8, 11, 22, 17]"

text \<open>
  A common shape for the four loops, used in the proofs: a group writes \<open>i + t\<close> from
  \<open>j + s\<close> for each pair \<open>(t, s)\<close> of a table, and the loop advances \<open>i\<close> by \<open>gs\<close> and
  \<open>j\<close> by \<open>js\<close>.
\<close>

definition group_writes ::
  "(nat \<times> nat) list \<Rightarrow> byte list \<Rightarrow> byte \<Rightarrow> nat \<Rightarrow> nat \<Rightarrow> store_op list" where
  "group_writes tab inp offset i j = map (\<lambda>(t, s). (i + t, inp ! (j + s) + offset)) tab"

definition groups ::
  "nat \<Rightarrow> nat \<Rightarrow> (nat \<times> nat) list \<Rightarrow> byte list \<Rightarrow> byte \<Rightarrow> nat \<Rightarrow> nat \<Rightarrow> nat \<Rightarrow> store_op list" where
  "groups gs js tab inp offset i j n =
     concat (map (\<lambda>g. group_writes tab inp offset (i + gs * g) (j + js * g)) [0..<n])"

definition singlechan_table :: "(nat \<times> nat) list" where
  "singlechan_table = [(0, 4), (1, 5), (2, 6), (3, 7), (4, 0), (5, 1), (6, 2), (7, 3)]"

definition multichan_stores ::
  "byte list \<Rightarrow> byte list \<Rightarrow> byte list \<Rightarrow> nat \<Rightarrow> byte \<Rightarrow> store_op list" where
  "multichan_stores r_buf g_buf b_buf len offset =
     convert_r_loop r_buf len offset 0 0 @ convert_g_loop g_buf len offset 0 0 @
     convert_b_loop b_buf len offset 0 0"

section \<open>Palette and mode control\<close>

definition R_EN :: byte where "R_EN = 1"
definition G_EN :: byte where "G_EN = 2"
definition B_EN :: byte where "B_EN = 4"

text \<open>The first loop of \<open>fl2k_load_custom_palette\<close>: a failed write is only reported.\<close>

definition palette_write_step :: "fl2k_dev option \<Rightarrow> 32 word list \<Rightarrow> nat \<Rightarrow> usb_env \<Rightarrow> usb_env" where
  "palette_write_step dev palette i env =
     (let (r, env1) = fl2k_write_reg dev 0x805c (push_bit 8 (palette ! i) OR (of_nat i AND 0xff)) env
      in if r \<noteq> FL2K_SUCCESS then fprintf_stderr (PaletteWriteError i) env1 else env1)"

text \<open>
  The second loop: \<open>r\<close> is the bitwise or of the two results, negative as soon as one of
  them is; the first failure ends the function.
\<close>

function palette_verify_loop ::
  "fl2k_dev option \<Rightarrow> 32 word list \<Rightarrow> nat \<Rightarrow> usb_env \<Rightarrow> fl2k_error \<times> usb_env" where
  "palette_verify_loop dev palette i env =
     (if i < 256 then
        let (r1, env1) = fl2k_write_reg dev 0x8060 (of_nat (i + 1) AND 0xff) env;
            (r2, reg, env2) = fl2k_read_reg dev 0x805c True env1
        in if r1 \<noteq> FL2K_SUCCESS \<or> r2 \<noteq> FL2K_SUCCESS then (FL2K_ERROR_OTHER, env2)
           else palette_verify_loop dev palette (i + 1)
                  (if reg \<noteq> Some (palette ! i) then fprintf_stderr (PaletteMismatch i) env2
                   else env2)
      else (FL2K_SUCCESS, env))"
  by pat_completeness auto
termination
  by (relation "measure (\<lambda>(dev, palette, i, env). 256 - i)") auto

declare palette_verify_loop.simps [simp del]

definition fl2k_load_custom_palette ::
  "fl2k_dev option \<Rightarrow> 32 word list \<Rightarrow> usb_env \<Rightarrow> fl2k_error \<times> usb_env" where
  "fl2k_load_custom_palette dev palette env =
     (if dev = None then (FL2K_ERROR_INVALID_PARAM, env)
      else palette_verify_loop dev palette 0 (fold (palette_write_step dev palette) [0..<256] env))"

definition fl2k_set_enabled_channels ::
  "fl2k_dev option \<Rightarrow> byte \<Rightarrow> usb_env \<Rightarrow> fl2k_error \<times> usb_env" where
  "fl2k_set_enabled_channels dev chan_mask env =
     fl2k_load_custom_palette dev
       (map (\<lambda>i. (if chan_mask AND R_EN \<noteq> 0 then push_bit 16 (of_nat i) else 0) OR
                 (if chan_mask AND G_EN \<noteq> 0 then push_bit 8 (of_nat i) else 0) OR
                 (if chan_mask AND B_EN \<noteq> 0 then of_nat i else 0)) [0..<256])
       env"

text \<open>
  \<open>fl2k_set_mode\<close>. The result of \<open>fl2k_set_enabled_channels\<close> is or-ed into \<open>r\<close> and
  then overwritten by the result of the final register write.
\<close>

definition fl2k_set_mode ::
  "fl2k_dev option \<Rightarrow> fl2k_mode \<Rightarrow> usb_env \<Rightarrow> fl2k_error \<times> fl2k_dev option \<times> usb_env" where
  "fl2k_set_mode dev m env =
     (case dev of
        None \<Rightarrow> (FL2K_ERROR_INVALID_PARAM, dev, env)
      | Some d \<Rightarrow>
          if async_status d = FL2K_RUNNING then (FL2K_ERROR_BUSY, dev, env)
          else if mode d = m then (FL2K_SUCCESS, dev, env)
          else
            (case fl2k_read_reg dev 0x8004 True env of
               (FL2K_SUCCESS, Some reg, env1) \<Rightarrow>
                 (case m of
                    FL2K_MODE_SINGLECHAN \<Rightarrow>
                      let (r1, env2) = fl2k_set_enabled_channels dev R_EN env1;
                          (r, env3) = fl2k_write_reg dev 0x8004 (reg OR (push_bit 25 1 OR push_bit 26 1)) env2
                      in (r, if r = FL2K_SUCCESS then Some (d\<lparr>mode := m\<rparr>) else dev, env3)
                  | FL2K_MODE_MULTICHAN \<Rightarrow>
                      let (r, env3) = fl2k_write_reg dev 0x8004 (reg AND NOT (push_bit 25 1 OR push_bit 26 1)) env1
                      in (r, if r = FL2K_SUCCESS then Some (d\<lparr>mode := m\<rparr>) else dev, env3)
                  | FL2K_MODE_OTHER v \<Rightarrow> (FL2K_ERROR_INVALID_PARAM, dev, env1))
             | (r, reg, env1) \<Rightarrow> (FL2K_ERROR_OTHER, dev, env1)))"

section \<open>The streaming engine\<close>

definition LIBUSB_ERROR_NO_DEVICE :: int where "LIBUSB_ERROR_NO_DEVICE = - 4"

text \<open>\<open>fl2k_stop_tx\<close>, first on a handle that is not null.\<close>

definition stop_tx_dev :: "fl2k_dev \<Rightarrow> fl2k_error \<times> fl2k_dev" where
  "stop_tx_dev d =
     (if async_status d = FL2K_RUNNING
      then (FL2K_SUCCESS, d\<lparr>async_status := FL2K_CANCELING, async_cancel := 1\<rparr>)
      else if async_status d \<noteq> FL2K_INACTIVE
      then (FL2K_SUCCESS, d\<lparr>async_status := FL2K_INACTIVE\<rparr>)
      else (FL2K_ERROR_BUSY, d))"

definition fl2k_stop_tx :: "fl2k_dev option \<Rightarrow> fl2k_error \<times> fl2k_dev option" where
  "fl2k_stop_tx dev =
     (case dev of
        None \<Rightarrow> (FL2K_ERROR_INVALID_PARAM, None)
      | Some d \<Rightarrow> (fst (stop_tx_dev d), Some (snd (stop_tx_dev d))))"

text \<open>
  \<open>fl2k_get_next_xfer\<close>, on the array of transfers \<open>xs\<close> with \<open>n = xfer_buf_num\<close>. The
  result is the index of the transfer returned, \<open>None\<close> for the null pointer.
  \<open>next_buf\<close> is the \<open>int\<close> of the source, \<open>- 1\<close> while nothing has been found.
\<close>

function get_next_xfer_loop ::
  "libusb_transfer list \<Rightarrow> nat \<Rightarrow> fl2k_buf_state \<Rightarrow> nat \<Rightarrow> int \<Rightarrow> 64 word \<Rightarrow> nat option" where
  "get_next_xfer_loop xs n st i next_buf next_seq =
     (if i < n then
        (case user_data (xs ! i) of
           None \<Rightarrow> get_next_xfer_loop xs n st (i + 1) next_buf next_seq
         | Some xfer_info \<Rightarrow>
             if state xfer_info = st then
               if st = BUF_EMPTY then Some i
               else if seq xfer_info < next_seq \<or> next_buf < 0
               then get_next_xfer_loop xs n st (i + 1) (int i) (seq xfer_info)
               else get_next_xfer_loop xs n st (i + 1) next_buf next_seq
             else get_next_xfer_loop xs n st (i + 1) next_buf next_seq)
      else if st = BUF_FILLED \<and> 0 \<le> next_buf then Some (nat next_buf) else None)"
  by pat_completeness auto
termination
  by (relation "measure (\<lambda>(xs, n, st, i, next_buf, next_seq). n - i)") auto

declare get_next_xfer_loop.simps [simp del]

definition fl2k_get_next_xfer :: "fl2k_dev \<Rightarrow> fl2k_buf_state \<Rightarrow> nat option" where
  "fl2k_get_next_xfer d st =
     (case xfer d of
        None \<Rightarrow> None
      | Some xs \<Rightarrow> get_next_xfer_loop xs (unat (xfer_buf_num d)) st 0 (- 1) 0)"

definition set_state :: "libusb_transfer list \<Rightarrow> nat \<Rightarrow> fl2k_buf_state \<Rightarrow> libusb_transfer list" where
  "set_state xs i st =
     xs[i := (xs ! i)\<lparr>user_data := map_option (\<lambda>info. info\<lparr>state := st\<rparr>) (user_data (xs ! i))\<rparr>]"

text \<open>
  \<open>_libusb_callback\<close> for the transfer at index \<open>idx\<close> of \<open>dev->xfer\<close>. The function
  dereferences \<open>xfer->user_data\<close> at once; the result is \<open>None\<close> where that pointer, or
  the transfer array, is null.
\<close>

definition libusb_callback :: "fl2k_dev \<Rightarrow> nat \<Rightarrow> usb_env \<Rightarrow> (fl2k_dev \<times> usb_env) option" where
  "libusb_callback d idx env =
     (case xfer d of
        None \<Rightarrow> None
      | Some xs \<Rightarrow>
          (case user_data (xs ! idx) of
             None \<Rightarrow> None
           | Some xfer_info \<Rightarrow>
               let (r, d1, env1) =
                     (if status (xs ! idx) = LIBUSB_TRANSFER_COMPLETED \<and> async_status d = FL2K_RUNNING
                      then
                        (case fl2k_get_next_xfer d BUF_FILLED of
                           Some next_xfer \<Rightarrow>
                             let xs1 = set_state xs next_xfer BUF_SUBMITTED;
                                 ((r, _), env1) = libusb_call (SubmitTransfer next_xfer) env;
                                 xs2 = set_state xs1 idx BUF_EMPTY
                             in (r, d\<lparr>xfer := Some xs2\<rparr>, pthread_cond_signal env1)
                         | None \<Rightarrow>
                             let ((r, _), env1) = libusb_call (SubmitTransfer idx) env;
                                 env2 = pthread_cond_signal env1
                             in (r, d\<lparr>underflow_cnt := underflow_cnt d + 1\<rparr>,
                                 fprintf_stderr ResubmittedTransfer env2))
                      else (0, d, env))
               in if (status (xs ! idx) \<noteq> LIBUSB_TRANSFER_CANCELLED \<and>
                      status (xs ! idx) \<noteq> LIBUSB_TRANSFER_COMPLETED) \<or>
                     r = LIBUSB_ERROR_NO_DEVICE
                  then Some (snd (stop_tx_dev (d1\<lparr>dev_lost := 1\<rparr>)),
                             fprintf_stderr CbTransferStatus (pthread_cond_signal env1))
                  else Some (d1, env1)))"

subsection \<open>The sample worker\<close>

text \<open>
  Modelled from the spec: the public header with \<open>FL2K_BUF_LEN\<close> and \<open>FL2K_XFER_LEN\<close> is
  not among the sources. The buffer handed over by one producer call holds 1,310,720
  bytes, and a transfer holds three of them.
\<close>

definition FL2K_BUF_LEN :: "32 word" where "FL2K_BUF_LEN = 1310720"
definition FL2K_XFER_LEN :: "32 word" where "FL2K_XFER_LEN = FL2K_BUF_LEN * 3"
definition DEFAULT_BUF_NUMBER :: "32 word" where "DEFAULT_BUF_NUMBER = 4"

text \<open>What the worker reads of a \<open>fl2k_data_info_t\<close> once the producer callback has returned.\<close>

record fl2k_data_info =
  sampletype_signed :: int
  r_buf :: "byte list option"
  g_buf :: "byte list option"
  b_buf :: "byte list option"







subsection \<open>A streaming session as a sequence of events\<close>







text \<open>Whether slot \<open>i\<close> is \<open>BUF_FILLED\<close>, and its sequence number.\<close>

definition slot_filled :: "libusb_transfer list \<Rightarrow> nat \<Rightarrow> bool" where
  "slot_filled xs i = (case user_data (xs ! i) of None \<Rightarrow> False | Some info \<Rightarrow> state info = BUF_FILLED)"

definition slot_seq :: "libusb_transfer list \<Rightarrow> nat \<Rightarrow> 64 word" where
  "slot_seq xs i = (case user_data (xs ! i) of None \<Rightarrow> 0 | Some info \<Rightarrow> seq info)"

definition is_submit :: "usb_call \<Rightarrow> bool" where
  "is_submit c = (case c of SubmitTransfer i \<Rightarrow> True | _ \<Rightarrow> False)"

text \<open>
  \<open>libusb_submit_transfer\<close> returns 0 when it has taken the transfer and a negative
  error code otherwise. \<open>accepted_submits\<close> lists, in order, the transfers whose
  submission libusb has taken; \<open>rp\<close> is the environment's \<open>reply\<close> and \<open>n\<close> the position
  of the first call of the list in the record.
\<close>

fun accepted_from :: "(nat \<Rightarrow> int \<times> data4) \<Rightarrow> nat \<Rightarrow> usb_call list \<Rightarrow> nat list" where
  "accepted_from rp n [] = []"
| "accepted_from rp n (c # cs) =
     (case c of SubmitTransfer i \<Rightarrow> (if fst (rp n) = 0 then [i] else []) | _ \<Rightarrow> []) @
     accepted_from rp (Suc n) cs"

definition accepted_submits :: "usb_env \<Rightarrow> nat list" where
  "accepted_submits env = accepted_from (reply env) 0 (calls env)"

subsection \<open>Starting a session\<close>

text \<open>
  \<open>fl2k_alloc_submit_transfers\<close>, in the build without zero-copy buffers (the zero-copy
  part sits under \<open>#if defined (__linux__)\<close>; with it a buffer that is used is all zeros
  as well). \<open>libusb_alloc_transfer\<close> and the \<open>malloc\<close> of the three arrays are taken to
  succeed, as the source does. The buffers are allocated one by one, and the first
  failure returns \<open>FL2K_ERROR_NO_MEM\<close>.
\<close>

definition fresh_transfer :: libusb_transfer where
  "fresh_transfer = \<lparr>status = LIBUSB_TRANSFER_COMPLETED, buffer = [], user_data = None\<rparr>"

function alloc_buffers_loop :: "nat \<Rightarrow> nat \<Rightarrow> usb_env \<Rightarrow> bool \<times> usb_env" where
  "alloc_buffers_loop n i env =
     (if i < n then
        let ((r, _), env1) = libusb_call (Malloc i) env
        in if r < 0 then (False, env1) else alloc_buffers_loop n (i + 1) env1
      else (True, env))"
  by pat_completeness auto
termination
  by (relation "measure (\<lambda>(n, i, env). n - i)") auto

function submit_loop ::
  "libusb_transfer list \<Rightarrow> nat \<Rightarrow> nat \<Rightarrow> usb_env \<Rightarrow> libusb_transfer list \<times> usb_env" where
  "submit_loop xs n i env =
     (if i < n then
        let ((r, _), env1) = libusb_call (SubmitTransfer i) env;
            xs1 = set_state xs i BUF_SUBMITTED
        in if r < 0 then (xs1, fprintf_stderr (SubmitFailed i) env1)
           else submit_loop xs1 n (i + 1) env1
      else (xs, env))"
  by pat_completeness auto
termination
  by (relation "measure (\<lambda>(xs, n, i, env). n - i)") auto

declare alloc_buffers_loop.simps [simp del] submit_loop.simps [simp del]

definition alloc_submit_transfers_dev :: "fl2k_dev \<Rightarrow> usb_env \<Rightarrow> fl2k_error \<times> fl2k_dev \<times> usb_env" where
  "alloc_submit_transfers_dev d env =
     (let xs0 = replicate (unat (xfer_buf_num d)) fresh_transfer;
          (ok, env1) = alloc_buffers_loop (unat (xfer_buf_num d)) 0 env
      in if \<not> ok then (FL2K_ERROR_NO_MEM, d\<lparr>xfer := Some xs0\<rparr>, env1)
         else
           let xs1 = map (\<lambda>x. x\<lparr>buffer := replicate (unat (xfer_buf_len d)) 0,
                                user_data := Some \<lparr>seq = 0, state = BUF_EMPTY\<rparr>\<rparr>) xs0;
               (xs2, env2) = submit_loop xs1 (unat (xfer_num d)) 0 env1
           in (FL2K_SUCCESS, d\<lparr>xfer := Some xs2\<rparr>, env2))"

definition fl2k_alloc_submit_transfers ::
  "fl2k_dev option \<Rightarrow> usb_env \<Rightarrow> fl2k_error \<times> fl2k_dev option \<times> usb_env" where
  "fl2k_alloc_submit_transfers dev env =
     (case dev of
        None \<Rightarrow> (FL2K_ERROR_INVALID_PARAM, None, env)
      | Some d \<Rightarrow>
          let (r, d1, env1) = alloc_submit_transfers_dev d env in (r, Some d1, env1))"

definition free_async_buffers :: "fl2k_dev \<Rightarrow> fl2k_dev" where
  "free_async_buffers d = d\<lparr>xfer := None\<rparr>"

text \<open>
  \<open>fl2k_start_tx\<close>. \<open>pthread_create\<close> answers through the environment as well. The
  function does not look at \<open>async_status\<close> before it sets it.
\<close>

definition fl2k_start_tx ::
  "fl2k_dev option \<Rightarrow> nat option \<Rightarrow> nat option \<Rightarrow> 32 word \<Rightarrow> usb_env \<Rightarrow>
     fl2k_error \<times> fl2k_dev option \<times> usb_env" where
  "fl2k_start_tx dev callback ctx buf_num env =
     (case dev of
        None \<Rightarrow> (FL2K_ERROR_INVALID_PARAM, None, env)
      | Some d \<Rightarrow>
          if callback = None then (FL2K_ERROR_INVALID_PARAM, dev, env)
          else
            let d1 = d\<lparr>async_status := FL2K_RUNNING, async_cancel := 0, cb := callback, cb_ctx := ctx\<rparr>;
                d2 = d1\<lparr>xfer_num := (if 0 < buf_num then buf_num else DEFAULT_BUF_NUMBER)\<rparr>;
                d3 = d2\<lparr>xfer_buf_num := xfer_num d2 + 2, xfer_buf_len := FL2K_XFER_LEN\<rparr>
            in
              (case alloc_submit_transfers_dev d3 env of
                 (r, d4, env1) \<Rightarrow>
                   if r \<noteq> FL2K_SUCCESS then (FL2K_ERROR_BUSY, Some (free_async_buffers d4), env1)
                   else
                     let ((r1, _), env2) = libusb_call (ThreadCreate USB_WORKER) env1
                     in if r1 < 0
                        then (FL2K_ERROR_BUSY, Some (free_async_buffers d4),
                              fprintf_stderr (ThreadSpawnError USB_WORKER) env2)
                        else
                          let ((r2, _), env3) = libusb_call (ThreadCreate SAMPLE_WORKER) env2
                          in if r2 < 0
                             then (FL2K_ERROR_BUSY, Some (free_async_buffers d4),
                                   fprintf_stderr (ThreadSpawnError SAMPLE_WORKER) env3)
                             else (FL2K_SUCCESS, Some d4, env3)))"

subsection \<open>A small pool for examples\<close>

definition demo_slot :: "fl2k_buf_state \<Rightarrow> 64 word \<Rightarrow> libusb_transfer" where
  "demo_slot st q =
     \<lparr>status = LIBUSB_TRANSFER_COMPLETED,
      buffer = [0, 0, 0, 0, 0, 0, 0, 0, 0, 0, 0, 0, 0, 0, 0, 0, 0, 0, 0, 0, 0, 0, 0, 0],
      user_data = Some \<lparr>seq = q, state = st\<rparr>\<rparr>"

definition demo_dev :: "libusb_transfer list \<Rightarrow> fl2k_dev" where
  "demo_dev xs =
     opened_dev\<lparr>xfer_num := 1, xfer_buf_num := word_of_nat (length xs), xfer_buf_len := 24,
       xfer := Some xs, cb := Some 0, async_status := FL2K_RUNNING\<rparr>"



subsection \<open>A handle that is streaming\<close>

text \<open>
  What a successful \<open>fl2k_start_tx\<close> with the default number of buffers leaves behind
  on a freshly opened handle: four transfers submitted, two empty, all buffers zero; and
  the calls it has made.
\<close>

definition fresh_slot :: "fl2k_buf_state \<Rightarrow> libusb_transfer" where
  "fresh_slot st =
     \<lparr>status = LIBUSB_TRANSFER_COMPLETED, buffer = replicate (unat FL2K_XFER_LEN) 0,
      user_data = Some \<lparr>seq = 0, state = st\<rparr>\<rparr>"

definition streaming_dev :: fl2k_dev where
  "streaming_dev =
     opened_dev\<lparr>xfer_num := 4, xfer_buf_num := 6, xfer_buf_len := FL2K_XFER_LEN,
       xfer := Some [fresh_slot BUF_SUBMITTED, fresh_slot BUF_SUBMITTED, fresh_slot BUF_SUBMITTED,
                     fresh_slot BUF_SUBMITTED, fresh_slot BUF_EMPTY, fresh_slot BUF_EMPTY],
       cb := Some 0, async_status := FL2K_RUNNING\<rparr>"

definition start_calls :: "usb_call list" where
  "start_calls =
     map Malloc [0..<6] @ map SubmitTransfer [0..<4] @
     [ThreadCreate USB_WORKER, ThreadCreate SAMPLE_WORKER]"

section \<open>Register reads\<close>

lemma fl2k_read_reg_short:
  assumes "0 \<le> r" "r < 4" "reply env (length (calls env)) = (r, d)"
  shows "fst (fl2k_read_reg (Some dev) reg True env) = FL2K_ERROR_OTHER"
proof -
  have "(word_of_int r :: 32 word) < 4"
    using assms(1,2) by (simp add: word_less_def uint_word_of_int)
  then show ?thesis
    using assms(3) by (cases d) (simp add: fl2k_read_reg_def libusb_call_def)
qed

text \<open>
  C8. A control transfer that fails returns a negative libusb error code and transfers no
  byte. Stored in the unsigned \<open>r\<close>, the code \<open>-1\<close> is \<open>0xffffffff\<close>, which is not below
  \<open>sizeof(data)\<close>: the read reports success, and the value it delivers is assembled from
  whatever the four-byte buffer held.
\<close>

theorem fl2k_read_reg_transfer_error:
  "fl2k_read_reg (Some opened_dev) 0x8004 True (const_env (- 1) (0xde, 0xad, 0xbe, 0xef)) =
     (FL2K_SUCCESS, Some 0xefbeadde,
      (const_env (- 1) (0xde, 0xad, 0xbe, 0xef))\<lparr>calls := [CtrlIn 0x8004]\<rparr>)"
  by (simp add: fl2k_read_reg_def libusb_call_def const_env_def)

section \<open>Format conversion: the store sequences\<close>

lemma length_store: "length (store ws out) = length out"
  unfolding store_def by (induction ws arbitrary: out) (auto split: prod.splits)

lemma store_append: "store (a @ b) out = store b (store a out)"
  by (simp add: store_def)

lemma store_nth_other: "p \<notin> fst ` set ws \<Longrightarrow> store ws out ! p = out ! p"
  unfolding store_def
  by (induction ws arbitrary: out) (auto split: prod.splits)

lemma store_nth_written:
  "distinct (map fst ws) \<Longrightarrow> (p, v) \<in> set ws \<Longrightarrow> p < length out \<Longrightarrow> store ws out ! p = v"
proof (induction ws arbitrary: out)
  case Nil
  then show ?case by simp
next
  case (Cons w ws)
  obtain q u where w: "w = (q, u)" by (cases w)
  have step: "store (w # ws) out = store ws (out[q := u])"
    by (simp add: store_def w)
  show ?case
  proof (cases "(p, v) = w")
    case True
    then have "p \<notin> fst ` set ws" using Cons.prems(1) w by auto
    then have "store ws (out[q := u]) ! p = out[q := u] ! p"
      by (rule store_nth_other)
    then show ?thesis using True w Cons.prems(3) step by simp
  next
    case False
    then have "(p, v) \<in> set ws" using Cons.prems(2) by simp
    moreover have "distinct (map fst ws)" using Cons.prems(1) by simp
    ultimately show ?thesis using Cons.IH[of "out[q := u]"] Cons.prems(3) step by simp
  qed
qed

lemma groups_0: "groups gs js tab inp offset i j 0 = []"
  by (simp add: groups_def)

lemma groups_Suc:
  "groups gs js tab inp offset i j (Suc n) =
     group_writes tab inp offset i j @ groups gs js tab inp offset (i + gs) (j + js) n"
proof -
  have "[0..<Suc n] = 0 # map Suc [0..<n]"
    by (simp add: upt_conv_Cons map_Suc_upt del: upt_Suc)
  then show ?thesis
    by (simp add: groups_def comp_def add.assoc del: upt_Suc)
qed

lemma upt_8: "[0..<8] = [0, 1, 2, 3, 4, 5, 6, 7]"
  by code_simp

lemma convert_r_body_table:
  "convert_r_body inp offset i j = group_writes (zip r_offsets [0..<8]) inp offset i j"
  unfolding upt_8 by (simp add: convert_r_body_def group_writes_def r_offsets_def)

lemma convert_r_loop_groups:
  "convert_r_loop inp (i + 24 * n) offset i j = groups 24 8 (zip r_offsets [0..<8]) inp offset i j n"
proof (induction n arbitrary: i j)
  case 0
  then show ?case by (simp add: groups_0 convert_r_loop.simps)
next
  case (Suc n)
  have "convert_r_loop inp (i + 24 * Suc n) offset i j =
        convert_r_body inp offset i j @ convert_r_loop inp ((i + 24) + 24 * n) offset (i + 24) (j + 8)"
    by (subst convert_r_loop.simps) (simp add: add.assoc)
  then show ?case
    by (simp only: Suc.IH groups_Suc convert_r_body_table)
qed

lemma convert_r_loop_explicit:
  "convert_r_loop inp (24 * n) offset 0 0 =
     concat (map (\<lambda>grp. map (\<lambda>k. (24 * grp + r_offsets ! k, inp ! (8 * grp + k) + offset)) [0..<8])
       [0..<n])"
proof -
  have "convert_r_loop inp (24 * n) offset 0 0 = groups 24 8 (zip r_offsets [0..<8]) inp offset 0 0 n"
    using convert_r_loop_groups[of inp 0 n offset 0] by simp
  also have "\<dots> = concat (map (\<lambda>grp. map (\<lambda>k. (24 * grp + r_offsets ! k, inp ! (8 * grp + k) + offset)) [0..<8])
       [0..<n])"
    unfolding upt_8 by (simp add: groups_def group_writes_def r_offsets_def)
  finally show ?thesis .
qed

lemma fst_zip_r: "fst ` set (zip r_offsets [0..<8]) = set r_offsets"
  unfolding upt_8 by (simp add: r_offsets_def)

lemma zip_r_nth: "k < 8 \<Longrightarrow> (r_offsets ! k, k) \<in> set (zip r_offsets [0..<8])"
  by (auto simp: set_zip r_offsets_def intro!: exI[of _ k])

lemma convert_g_body_table:
  "convert_g_body inp offset i j = group_writes (zip g_offsets [0..<8]) inp offset i j"
  unfolding upt_8 by (simp add: convert_g_body_def group_writes_def g_offsets_def)

lemma convert_g_loop_groups:
  "convert_g_loop inp (i + 24 * n) offset i j = groups 24 8 (zip g_offsets [0..<8]) inp offset i j n"
proof (induction n arbitrary: i j)
  case 0
  then show ?case by (simp add: groups_0 convert_g_loop.simps)
next
  case (Suc n)
  have "convert_g_loop inp (i + 24 * Suc n) offset i j =
        convert_g_body inp offset i j @ convert_g_loop inp ((i + 24) + 24 * n) offset (i + 24) (j + 8)"
    by (subst convert_g_loop.simps) (simp add: add.assoc)
  then show ?case
    by (simp only: Suc.IH groups_Suc convert_g_body_table)
qed

lemma convert_g_loop_explicit:
  "convert_g_loop inp (24 * n) offset 0 0 =
     concat (map (\<lambda>grp. map (\<lambda>k. (24 * grp + g_offsets ! k, inp ! (8 * grp + k) + offset)) [0..<8])
       [0..<n])"
proof -
  have "convert_g_loop inp (24 * n) offset 0 0 = groups 24 8 (zip g_offsets [0..<8]) inp offset 0 0 n"
    using convert_g_loop_groups[of inp 0 n offset 0] by simp
  also have "\<dots> = concat (map (\<lambda>grp. map (\<lambda>k. (24 * grp + g_offsets ! k, inp ! (8 * grp + k) + offset)) [0..<8])
       [0..<n])"
    unfolding upt_8 by (simp add: groups_def group_writes_def g_offsets_def)
  finally show ?thesis .
qed

lemma fst_zip_g: "fst ` set (zip g_offsets [0..<8]) = set g_offsets"
  unfolding upt_8 by (simp add: g_offsets_def)

lemma zip_g_nth: "k < 8 \<Longrightarrow> (g_offsets ! k, k) \<in> set (zip g_offsets [0..<8])"
  by (auto simp: set_zip g_offsets_def intro!: exI[of _ k])

lemma convert_b_body_table:
  "convert_b_body inp offset i j = group_writes (zip b_offsets [0..<8]) inp offset i j"
  unfolding upt_8 by (simp add: convert_b_body_def group_writes_def b_offsets_def)

lemma convert_b_loop_groups:
  "convert_b_loop inp (i + 24 * n) offset i j = groups 24 8 (zip b_offsets [0..<8]) inp offset i j n"
proof (induction n arbitrary: i j)
  case 0
  then show ?case by (simp add: groups_0 convert_b_loop.simps)
next
  case (Suc n)
  have "convert_b_loop inp (i + 24 * Suc n) offset i j =
        convert_b_body inp offset i j @ convert_b_loop inp ((i + 24) + 24 * n) offset (i + 24) (j + 8)"
    by (subst convert_b_loop.simps) (simp add: add.assoc)
  then show ?case
    by (simp only: Suc.IH groups_Suc convert_b_body_table)
qed

lemma convert_b_loop_explicit:
  "convert_b_loop inp (24 * n) offset 0 0 =
     concat (map (\<lambda>grp. map (\<lambda>k. (24 * grp + b_offsets ! k, inp ! (8 * grp + k) + offset)) [0..<8])
       [0..<n])"
proof -
  have "convert_b_loop inp (24 * n) offset 0 0 = groups 24 8 (zip b_offsets [0..<8]) inp offset 0 0 n"
    using convert_b_loop_groups[of inp 0 n offset 0] by simp
  also have "\<dots> = concat (map (\<lambda>grp. map (\<lambda>k. (24 * grp + b_offsets ! k, inp ! (8 * grp + k) + offset)) [0..<8])
       [0..<n])"
    unfolding upt_8 by (simp add: groups_def group_writes_def b_offsets_def)
  finally show ?thesis .
qed

lemma fst_zip_b: "fst ` set (zip b_offsets [0..<8]) = set b_offsets"
  unfolding upt_8 by (simp add: b_offsets_def)

lemma zip_b_nth: "k < 8 \<Longrightarrow> (b_offsets ! k, k) \<in> set (zip b_offsets [0..<8])"
  by (auto simp: set_zip b_offsets_def intro!: exI[of _ k])

lemma set_groups:
  "set (groups gs js tab inp offset i j n) =
     {(i + gs * g + t, inp ! (j + js * g + s) + offset) | g t s. g < n \<and> (t, s) \<in> set tab}"
proof -
  have "\<And>g t s. g < n \<Longrightarrow> (t, s) \<in> set tab \<Longrightarrow>
      \<exists>g' t' s'. i + gs * g + t = i + gs * g' + t' \<and>
        inp ! (j + js * g + s) + offset = inp ! (j + js * g' + s') + offset \<and> g' < n \<and> (t', s') \<in> set tab"
    by blast
  then show ?thesis
    by (auto simp: groups_def group_writes_def)
qed

lemma fst_groups:
  "fst ` set (groups gs js tab inp offset i j n) = {i + gs * g + t | g t. g < n \<and> t \<in> fst ` set tab}"
  unfolding set_groups by force

lemma length_groups: "length (groups gs js tab inp offset i j n) = n * length tab"
  by (induction n arbitrary: i j) (simp_all add: groups_0 groups_Suc group_writes_def)

lemma offsets_cover:
  "set r_offsets \<union> set g_offsets \<union> set b_offsets = {0..<24}"
proof -
  have "[0..<24] = [0, 1, 2, 3, 4, 5, 6, 7, 8, 9, 10, 11, 12, 13, 14, 15, 16, 17, 18, 19, 20, 21, 22, 23]"
    by code_simp
  then have "{0..<24::nat} = set [0, 1, 2, 3, 4, 5, 6, 7, 8, 9, 10, 11, 12, 13, 14, 15, 16, 17, 18, 19, 20, 21, 22, 23]"
    by (metis atLeastLessThan_upt)
  also have "\<dots> = set r_offsets \<union> set g_offsets \<union> set b_offsets"
    unfolding r_offsets_def g_offsets_def b_offsets_def by (simp only: set_simps) blast
  finally show ?thesis by simp
qed

lemma offsets_disjoint:
  "set r_offsets \<inter> set g_offsets = {}" "set r_offsets \<inter> set b_offsets = {}"
  "set g_offsets \<inter> set b_offsets = {}"
  by (simp_all add: r_offsets_def g_offsets_def b_offsets_def)

lemma group_positions:
  "{24 * g + t | g t. g < n \<and> t < (24::nat)} = {0..<24 * n}"
proof (rule set_eqI, rule iffI)
  fix p assume "p \<in> {24 * g + t | g t. g < n \<and> t < 24}"
  then obtain g t where "p = 24 * g + t" "g < n" "t < 24" by blast
  then show "p \<in> {0..<24 * n}" by simp
next
  fix p :: nat assume "p \<in> {0..<24 * n}"
  then have "p = 24 * (p div 24) + p mod 24" "p div 24 < n" "p mod 24 < 24"
    by (simp_all add: less_mult_imp_div_less mult.commute)
  then show "p \<in> {24 * g + t | g t. g < n \<and> t < 24}" by blast
qed



lemma convert_multichan_store:
  "convert_multichan (Some out) (Some r) (Some g) (Some b) len offset =
     Some (store (multichan_stores r g b (unat len) offset) out)"
  by (simp add: convert_multichan_def fl2k_convert_r_def fl2k_convert_g_def fl2k_convert_b_def
      multichan_stores_def store_append)

lemma multichan_stores_groups:
  "multichan_stores r g b (24 * n) offset =
     groups 24 8 (zip r_offsets [0..<8]) r offset 0 0 n @
     groups 24 8 (zip g_offsets [0..<8]) g offset 0 0 n @
     groups 24 8 (zip b_offsets [0..<8]) b offset 0 0 n"
  using convert_r_loop_groups[of r 0 n offset 0] convert_g_loop_groups[of g 0 n offset 0]
    convert_b_loop_groups[of b 0 n offset 0]
  by (simp add: multichan_stores_def)

lemma multichan_positions:
  "set (map fst (multichan_stores r g b (24 * n) offset)) = {0..<24 * n}"
proof -
  have "set (map fst (multichan_stores r g b (24 * n) offset)) =
        {24 * grp + t | grp t. grp < n \<and> t \<in> set r_offsets \<union> set g_offsets \<union> set b_offsets}"
    unfolding multichan_stores_groups
    by (simp only: set_map set_append image_Un fst_groups fst_zip_r fst_zip_g fst_zip_b) auto
  also have "\<dots> = {24 * grp + t | grp t. grp < n \<and> t < (24::nat)}"
    unfolding offsets_cover by simp
  finally show ?thesis by (simp only: group_positions)
qed

lemma multichan_length: "length (multichan_stores r g b (24 * n) offset) = 24 * n"
  unfolding multichan_stores_groups
  by (simp add: length_groups r_offsets_def g_offsets_def b_offsets_def)

lemma multichan_distinct: "distinct (map fst (multichan_stores r g b (24 * n) offset))"
proof (rule card_distinct)
  show "card (set (map fst (multichan_stores r g b (24 * n) offset))) =
        length (map fst (multichan_stores r g b (24 * n) offset))"
    unfolding multichan_positions by (simp add: multichan_length)
qed

lemma multichan_nth:
  assumes "length out = 24 * n" "grp < n" "k < 8"
  shows "store (multichan_stores r g b (24 * n) offset) out ! (24 * grp + r_offsets ! k) =
           r ! (8 * grp + k) + offset"
    and "store (multichan_stores r g b (24 * n) offset) out ! (24 * grp + g_offsets ! k) =
           g ! (8 * grp + k) + offset"
    and "store (multichan_stores r g b (24 * n) offset) out ! (24 * grp + b_offsets ! k) =
           b ! (8 * grp + k) + offset"
proof -
  let ?ws = "multichan_stores r g b (24 * n) offset"
  have in_r: "(24 * grp + r_offsets ! k, r ! (8 * grp + k) + offset) \<in> set ?ws"
    unfolding multichan_stores_groups set_append set_groups
    using assms(2) zip_r_nth[OF assms(3)] by auto
  have in_g: "(24 * grp + g_offsets ! k, g ! (8 * grp + k) + offset) \<in> set ?ws"
    unfolding multichan_stores_groups set_append set_groups
    using assms(2) zip_g_nth[OF assms(3)] by auto
  have in_b: "(24 * grp + b_offsets ! k, b ! (8 * grp + k) + offset) \<in> set ?ws"
    unfolding multichan_stores_groups set_append set_groups
    using assms(2) zip_b_nth[OF assms(3)] by auto
  have bound: "\<And>p v. (p, v) \<in> set ?ws \<Longrightarrow> p < length out"
  proof -
    fix p v assume "(p, v) \<in> set ?ws"
    then have "p \<in> set (map fst ?ws)" by force
    then show "p < length out" unfolding multichan_positions using assms(1) by simp
  qed
  show "store ?ws out ! (24 * grp + r_offsets ! k) = r ! (8 * grp + k) + offset"
    by (rule store_nth_written[OF multichan_distinct in_r bound[OF in_r]])
  show "store ?ws out ! (24 * grp + g_offsets ! k) = g ! (8 * grp + k) + offset"
    by (rule store_nth_written[OF multichan_distinct in_g bound[OF in_g]])
  show "store ?ws out ! (24 * grp + b_offsets ! k) = b ! (8 * grp + k) + offset"
    by (rule store_nth_written[OF multichan_distinct in_b bound[OF in_b]])
qed

text \<open>
  C3. For a transfer buffer of \<open>len = 24 * n\<close> bytes: each conversion stores, group by
  group, its eight consecutive input samples at the offsets of its table, in input order;
  the three tables are pairwise disjoint and cover \<open>0..23\<close>; the stores of the three
  conversions together hit every position below \<open>len\<close> exactly once; and the buffer that
  results holds every sample at its place.
\<close>

theorem multichan_conversion:
  assumes "unat len = 24 * n" and "length out = unat len"
    and "8 * n \<le> length r" and "8 * n \<le> length g" and "8 * n \<le> length b"
  shows
    "convert_r_loop r (unat len) offset 0 0 =
       concat (map (\<lambda>grp. map (\<lambda>k. (24 * grp + r_offsets ! k, r ! (8 * grp + k) + offset)) [0..<8])
         [0..<n]) \<and>
     convert_g_loop g (unat len) offset 0 0 =
       concat (map (\<lambda>grp. map (\<lambda>k. (24 * grp + g_offsets ! k, g ! (8 * grp + k) + offset)) [0..<8])
         [0..<n]) \<and>
     convert_b_loop b (unat len) offset 0 0 =
       concat (map (\<lambda>grp. map (\<lambda>k. (24 * grp + b_offsets ! k, b ! (8 * grp + k) + offset)) [0..<8])
         [0..<n]) \<and>
     set r_offsets \<inter> set g_offsets = {} \<and> set r_offsets \<inter> set b_offsets = {} \<and>
     set g_offsets \<inter> set b_offsets = {} \<and>
     set r_offsets \<union> set g_offsets \<union> set b_offsets = {0..<24} \<and>
     distinct (map fst (multichan_stores r g b (unat len) offset)) \<and>
     set (map fst (multichan_stores r g b (unat len) offset)) = {0..<unat len} \<and>
     (\<exists>final.
        convert_multichan (Some out) (Some r) (Some g) (Some b) len offset = Some final \<and>
        final = store (multichan_stores r g b (unat len) offset) out \<and>
        length final = unat len \<and>
        (\<forall>grp<n. \<forall>k<8.
           final ! (24 * grp + r_offsets ! k) = r ! (8 * grp + k) + offset \<and>
           final ! (24 * grp + g_offsets ! k) = g ! (8 * grp + k) + offset \<and>
           final ! (24 * grp + b_offsets ! k) = b ! (8 * grp + k) + offset))"
proof -
  have out: "length out = 24 * n" using assms(1,2) by simp
  show ?thesis
    unfolding assms(1)
    by (intro conjI exI[of _ "store (multichan_stores r g b (24 * n) offset) out"] allI impI
        convert_r_loop_explicit convert_g_loop_explicit convert_b_loop_explicit
        offsets_disjoint offsets_cover multichan_distinct multichan_positions
        convert_multichan_store[of out r g b len offset, unfolded assms(1)] refl
        multichan_nth[OF out])
      (simp_all add: length_store out)
qed

theorem multichan_conversion_witness:
  "unat (24 :: 32 word) = 24 * 1 \<and>
   convert_multichan (Some [0, 0, 0, 0, 0, 0, 0, 0, 0, 0, 0, 0, 0, 0, 0, 0, 0, 0, 0, 0, 0, 0, 0, 0])
     (Some [0, 1, 2, 3, 4, 5, 6, 7]) (Some [8, 9, 10, 11, 12, 13, 14, 15])
     (Some [16, 17, 18, 19, 20, 21, 22, 23]) 24 0 =
     Some [9, 1, 18, 10, 16, 8, 0, 17, 20, 12, 4, 21, 2, 19, 11, 3, 6, 23, 15, 7, 13, 5, 22, 14]"
proof -
  let ?out = "[0, 0, 0, 0, 0, 0, 0, 0, 0, 0, 0, 0, 0, 0, 0, 0, 0, 0, 0, 0, 0, 0, 0, 0] :: byte list"
  let ?r = "[0, 1, 2, 3, 4, 5, 6, 7] :: byte list"
  let ?g = "[8, 9, 10, 11, 12, 13, 14, 15] :: byte list"
  let ?b = "[16, 17, 18, 19, 20, 21, 22, 23] :: byte list"
  have h: "unat (24 :: 32 word) = 24 * 1" by simp
  have l: "length ?out = unat (24 :: 32 word)" by simp
  have "convert_multichan (Some ?out) (Some ?r) (Some ?g) (Some ?b) 24 0 =
     Some (store (multichan_stores ?r ?g ?b (unat (24 :: 32 word)) 0) ?out)"
    using multichan_conversion[OF h l, of ?r ?g ?b 0] by simp
  also have "multichan_stores ?r ?g ?b (unat (24 :: 32 word)) 0 =
     convert_r_body ?r 0 0 0 @ convert_g_body ?g 0 0 0 @ convert_b_body ?b 0 0 0"
    by (simp add: multichan_stores_def convert_r_loop.simps convert_g_loop.simps
        convert_b_loop.simps)
  also have "store (convert_r_body ?r 0 0 0 @ convert_g_body ?g 0 0 0 @ convert_b_body ?b 0 0 0) ?out =
     [9, 1, 18, 10, 16, 8, 0, 17, 20, 12, 4, 21, 2, 19, 11, 3, 6, 23, 15, 7, 13, 5, 22, 14]"
    by (simp add: convert_r_body_def convert_g_body_def convert_b_body_def store_def)
  finally show ?thesis using h by simp
qed


lemma convert_singlechan_body_table:
  "convert_singlechan_body inp offset i = group_writes singlechan_table inp offset i i"
  by (simp add: convert_singlechan_body_def group_writes_def singlechan_table_def)

lemma convert_singlechan_loop_groups:
  "convert_singlechan_loop inp (i + 8 * n) offset i = groups 8 8 singlechan_table inp offset i i n"
proof (induction n arbitrary: i)
  case 0
  then show ?case by (simp add: groups_0 convert_singlechan_loop.simps)
next
  case (Suc n)
  have "convert_singlechan_loop inp (i + 8 * Suc n) offset i =
        convert_singlechan_body inp offset i @ convert_singlechan_loop inp ((i + 8) + 8 * n) offset (i + 8)"
    by (subst convert_singlechan_loop.simps) (simp add: add.assoc)
  then show ?case
    by (simp only: Suc.IH groups_Suc convert_singlechan_body_table)
qed

lemma singlechan_table_nth: "t < 8 \<Longrightarrow> (t, (t + 4) mod 8) \<in> set singlechan_table"
proof -
  assume "t < 8"
  then have "t = 0 \<or> t = 1 \<or> t = 2 \<or> t = 3 \<or> t = 4 \<or> t = 5 \<or> t = 6 \<or> t = 7"
    by arith
  then show ?thesis
    unfolding singlechan_table_def by (elim disjE) simp_all
qed

lemma singlechan_positions:
  "set (map fst (groups 8 8 singlechan_table inp offset 0 0 n)) = {0..<8 * n}"
proof -
  have "fst ` set singlechan_table = {t. t < 8}"
  proof -
    have "{t. t < (8::nat)} = set [0..<8]" by auto
    then show ?thesis unfolding upt_8 singlechan_table_def by simp
  qed
  then have "set (map fst (groups 8 8 singlechan_table inp offset 0 0 n)) =
             {8 * g + t | g t. g < n \<and> t < (8::nat)}"
    by (simp add: fst_groups)
  also have "\<dots> = {0..<8 * n}"
  proof (rule set_eqI, rule iffI)
    fix p assume "p \<in> {8 * g + t | g t. g < n \<and> t < (8::nat)}"
    then obtain g t where "p = 8 * g + t" "g < n" "t < 8" by blast
    then show "p \<in> {0..<8 * n}" by simp
  next
    fix p :: nat assume "p \<in> {0..<8 * n}"
    then have "p = 8 * (p div 8) + p mod 8" "p div 8 < n" "p mod 8 < 8"
      by (simp_all add: less_mult_imp_div_less mult.commute)
    then show "p \<in> {8 * g + t | g t. g < n \<and> t < (8::nat)}" by blast
  qed
  finally show ?thesis .
qed

lemma singlechan_distinct: "distinct (map fst (groups 8 8 singlechan_table inp offset 0 0 n))"
proof (rule card_distinct)
  show "card (set (map fst (groups 8 8 singlechan_table inp offset 0 0 n))) =
        length (map fst (groups 8 8 singlechan_table inp offset 0 0 n))"
    unfolding singlechan_positions by (simp add: length_groups singlechan_table_def)
qed

lemma singlechan_nth:
  assumes "length out = 8 * n" "g < n" "t < 8"
  shows "store (convert_singlechan_loop inp (8 * n) offset 0) out ! (8 * g + t) =
           inp ! (8 * g + (t + 4) mod 8) + offset"
proof -
  let ?ws = "groups 8 8 singlechan_table inp offset 0 0 n"
  have ws: "convert_singlechan_loop inp (8 * n) offset 0 = ?ws"
    using convert_singlechan_loop_groups[of inp 0 n offset] by simp
  have mem: "(8 * g + t, inp ! (8 * g + (t + 4) mod 8) + offset) \<in> set ?ws"
    unfolding set_groups using assms(2) singlechan_table_nth[OF assms(3)] by auto
  have "8 * g + t < length out" using assms by simp
  then show ?thesis
    unfolding ws by (rule store_nth_written[OF singlechan_distinct mem])
qed

lemma fl2k_convert_singlechan_Some:
  "fl2k_convert_singlechan (Some out) (Some inp) len offset =
     Some (store (convert_singlechan_loop inp (unat len) offset 0) out)"
  by (simp add: fl2k_convert_singlechan_def)

lemma singlechan_twice:
  assumes "length inp = 8 * n" "length out = 8 * n" "length out' = 8 * n"
  shows "store (convert_singlechan_loop (store (convert_singlechan_loop inp (8 * n) 0 0) out) (8 * n) 0 0) out' = inp"
proof (rule nth_equalityI)
  show "length (store (convert_singlechan_loop (store (convert_singlechan_loop inp (8 * n) 0 0) out) (8 * n) 0 0) out') = length inp"
    using assms by (simp add: length_store)
next
  fix p
  assume "p < length (store (convert_singlechan_loop (store (convert_singlechan_loop inp (8 * n) 0 0) out) (8 * n) 0 0) out')"
  then have p: "p < 8 * n" using assms by (simp add: length_store)
  define g t where "g = p div 8" and "t = p mod 8"
  have gt: "p = 8 * g + t" "g < n" "t < 8" "(t + 4) mod 8 < 8"
    using p by (simp_all add: g_def t_def less_mult_imp_div_less mult.commute)
  have twice: "((t + 4) mod 8 + 4) mod 8 = t"
    using gt(3) by presburger
  let ?mid = "store (convert_singlechan_loop inp (8 * n) 0 0) out"
  have "store (convert_singlechan_loop ?mid (8 * n) 0 0) out' ! (8 * g + t) = ?mid ! (8 * g + (t + 4) mod 8) + 0"
    by (rule singlechan_nth[OF assms(3) gt(2,3)])
  also have "?mid ! (8 * g + (t + 4) mod 8) = inp ! (8 * g + ((t + 4) mod 8 + 4) mod 8) + 0"
    by (rule singlechan_nth[OF assms(2) gt(2,4)])
  finally show "store (convert_singlechan_loop ?mid (8 * n) 0 0) out' ! p = inp ! p"
    using gt(1) twice by simp
qed

text \<open>
  C7. For a buffer of \<open>len = 8 * n\<close> bytes the single-channel conversion yields a buffer
  of the same length in which every group of eight bytes holds the input group with its
  two halves exchanged, each byte increased by the bias; with bias 0, converting the result
  once more gives back the input.
\<close>

theorem singlechan_conversion:
  assumes "unat len = 8 * n" and "length inp = unat len" and "length out = unat len"
    and "length out' = unat len"
  shows
    "(\<exists>res.
        fl2k_convert_singlechan (Some out) (Some inp) len offset = Some res \<and>
        length res = length inp \<and>
        (\<forall>g<n. \<forall>k<4.
           res ! (8 * g + k) = inp ! (8 * g + 4 + k) + offset \<and>
           res ! (8 * g + 4 + k) = inp ! (8 * g + k) + offset)) \<and>
     fl2k_convert_singlechan (Some out')
       (fl2k_convert_singlechan (Some out) (Some inp) len 0) len 0 = Some inp"
proof -
  have lens: "length inp = 8 * n" "length out = 8 * n" "length out' = 8 * n"
    using assms by simp_all
  have half: "store (convert_singlechan_loop inp (8 * n) offset 0) out ! (8 * g + k) =
                inp ! (8 * g + 4 + k) + offset \<and>
              store (convert_singlechan_loop inp (8 * n) offset 0) out ! (8 * g + 4 + k) =
                inp ! (8 * g + k) + offset" if "g < n" "k < 4" for g k
  proof -
    have a: "k < 8" "k + 4 < 8" "(k + 4) mod 8 = 4 + k" "(k + 4 + 4) mod 8 = k"
      using that(2) by simp_all
    show ?thesis
      using singlechan_nth[OF lens(2) that(1) a(1), of inp offset]
        singlechan_nth[OF lens(2) that(1) a(2), of inp offset] a(3,4)
      by (simp add: add.assoc add.commute)
  qed
  have first: "\<exists>res.
        fl2k_convert_singlechan (Some out) (Some inp) len offset = Some res \<and>
        length res = length inp \<and>
        (\<forall>g<n. \<forall>k<4.
           res ! (8 * g + k) = inp ! (8 * g + 4 + k) + offset \<and>
           res ! (8 * g + 4 + k) = inp ! (8 * g + k) + offset)"
    unfolding fl2k_convert_singlechan_Some assms(1)
    by (intro exI[of _ "store (convert_singlechan_loop inp (8 * n) offset 0) out"] conjI allI impI
        refl half) (simp_all add: length_store lens)
  have second: "fl2k_convert_singlechan (Some out')
       (fl2k_convert_singlechan (Some out) (Some inp) len 0) len 0 = Some inp"
    unfolding fl2k_convert_singlechan_Some assms(1)
    by (simp only: singlechan_twice[OF lens])
  show ?thesis using first second by (rule conjI)
qed

theorem singlechan_conversion_witness:
  "unat (8 :: 32 word) = 8 * 1 \<and>
   fl2k_convert_singlechan (Some [0, 0, 0, 0, 0, 0, 0, 0]) (Some [10, 11, 12, 13, 14, 15, 16, 17]) 8 128 =
     Some [142, 143, 144, 145, 138, 139, 140, 141] \<and>
   fl2k_convert_singlechan (Some [0, 0, 0, 0, 0, 0, 0, 0])
     (fl2k_convert_singlechan (Some [0, 0, 0, 0, 0, 0, 0, 0]) (Some [10, 11, 12, 13, 14, 15, 16, 17]) 8 0)
     8 0 = Some [10, 11, 12, 13, 14, 15, 16, 17]"
proof -
  let ?z = "[0, 0, 0, 0, 0, 0, 0, 0] :: byte list"
  let ?i = "[10, 11, 12, 13, 14, 15, 16, 17] :: byte list"
  have h: "unat (8 :: 32 word) = 8 * 1" by simp
  have l: "length ?i = unat (8 :: 32 word)" "length ?z = unat (8 :: 32 word)" by simp_all
  have "fl2k_convert_singlechan (Some ?z) (Some ?i) 8 128 =
        Some [142, 143, 144, 145, 138, 139, 140, 141]"
    by (simp add: fl2k_convert_singlechan_def convert_singlechan_body_def store_def
        convert_singlechan_loop.simps)
  then show ?thesis
    using h singlechan_conversion[OF h l(1) l(2) l(2), of 0] by simp
qed

section \<open>Mode switch\<close>

text \<open>
  C9, as stated, fails where its two halves meet: on a handle that is streaming,
  \<open>fl2k_set_mode\<close> with the handle's current mode returns \<open>FL2K_ERROR_BUSY\<close>, not success.
\<close>

theorem set_mode_current_mode_while_running:
  "mode (opened_dev\<lparr>async_status := FL2K_RUNNING\<rparr>) = FL2K_MODE_MULTICHAN \<and>
   fl2k_set_mode (Some (opened_dev\<lparr>async_status := FL2K_RUNNING\<rparr>)) FL2K_MODE_MULTICHAN
     (const_env 0 (0, 0, 0, 0)) =
     (FL2K_ERROR_BUSY, Some (opened_dev\<lparr>async_status := FL2K_RUNNING\<rparr>), const_env 0 (0, 0, 0, 0)) \<and>
   fst (fl2k_set_mode (Some (opened_dev\<lparr>async_status := FL2K_RUNNING\<rparr>)) FL2K_MODE_MULTICHAN
     (const_env 0 (0, 0, 0, 0))) \<noteq> FL2K_SUCCESS"
  by (simp add: fl2k_set_mode_def opened_dev_def)

text \<open>
  C9, amended. While the engine is \<open>FL2K_RUNNING\<close>, \<open>fl2k_set_mode\<close> returns
  \<open>FL2K_ERROR_BUSY\<close>; while it is not, a call with the handle's current mode returns
  \<open>FL2K_SUCCESS\<close>. In both cases the handle is unchanged and the environment has seen
  no call: no register has been read or written.
\<close>

theorem set_mode_guarded:
  "(async_status d = FL2K_RUNNING \<longrightarrow>
      fl2k_set_mode (Some d) m env = (FL2K_ERROR_BUSY, Some d, env)) \<and>
   (async_status d \<noteq> FL2K_RUNNING \<and> mode d = m \<longrightarrow>
      fl2k_set_mode (Some d) m env = (FL2K_SUCCESS, Some d, env))"
  by (simp add: fl2k_set_mode_def)

theorem set_mode_guarded_witness:
  "fl2k_set_mode (Some (opened_dev\<lparr>async_status := FL2K_RUNNING\<rparr>)) FL2K_MODE_SINGLECHAN
     (const_env 0 (0, 0, 0, 0)) =
     (FL2K_ERROR_BUSY, Some (opened_dev\<lparr>async_status := FL2K_RUNNING\<rparr>), const_env 0 (0, 0, 0, 0)) \<and>
   fl2k_set_mode (Some opened_dev) FL2K_MODE_MULTICHAN (const_env 0 (0, 0, 0, 0)) =
     (FL2K_SUCCESS, Some opened_dev, const_env 0 (0, 0, 0, 0))"
  using set_mode_guarded[of "opened_dev\<lparr>async_status := FL2K_RUNNING\<rparr>" FL2K_MODE_SINGLECHAN
      "const_env 0 (0, 0, 0, 0)"]
    set_mode_guarded[of opened_dev FL2K_MODE_MULTICHAN "const_env 0 (0, 0, 0, 0)"]
  by (simp add: opened_dev_def)


section \<open>Choosing the next transfer\<close>

lemma get_next_filled_loop:
  assumes "st = BUF_FILLED" and "i \<le> n"
    and "0 \<le> nb \<Longrightarrow> nat nb < i \<and> slot_filled xs (nat nb) \<and> slot_seq xs (nat nb) = ns \<and>
           (\<forall>j<i. slot_filled xs j \<longrightarrow> ns \<le> slot_seq xs j)"
    and "nb < 0 \<Longrightarrow> \<forall>j<i. \<not> slot_filled xs j"
  shows "case get_next_xfer_loop xs n st i nb ns of
           None \<Rightarrow> \<forall>j<n. \<not> slot_filled xs j
         | Some k \<Rightarrow> k < n \<and> slot_filled xs k \<and>
             (\<forall>j<n. slot_filled xs j \<longrightarrow> slot_seq xs k \<le> slot_seq xs j)"
  using assms
proof (induction xs n st i nb ns rule: get_next_xfer_loop.induct)
  case (1 xs n st i nb ns)
  note st = \<open>st = BUF_FILLED\<close>
  show ?case
  proof (cases "i < n")
    case False
    then have "i = n" using "1.prems"(2) by simp
    then show ?thesis
      using "1.prems"(3,4) False st
      by (subst get_next_xfer_loop.simps) (cases "0 \<le> nb"; simp)
  next
    case True
    show ?thesis
    proof (cases "user_data (xs ! i)")
      case None
      have notf: "\<not> slot_filled xs i" by (simp add: slot_filled_def None)
      have keep: "get_next_xfer_loop xs n st i nb ns = get_next_xfer_loop xs n st (i + 1) nb ns"
        by (subst get_next_xfer_loop.simps) (simp add: True None)
      have "case get_next_xfer_loop xs n st (i + 1) nb ns of
           None \<Rightarrow> \<forall>j<n. \<not> slot_filled xs j
         | Some k \<Rightarrow> k < n \<and> slot_filled xs k \<and>
             (\<forall>j<n. slot_filled xs j \<longrightarrow> slot_seq xs k \<le> slot_seq xs j)"
      proof (rule "1.IH"(1)[OF True None st])
        show "i + 1 \<le> n" using True by simp
        show "nat nb < i + 1 \<and> slot_filled xs (nat nb) \<and> slot_seq xs (nat nb) = ns \<and>
           (\<forall>j<i + 1. slot_filled xs j \<longrightarrow> ns \<le> slot_seq xs j)" if "0 \<le> nb"
          using "1.prems"(3)[OF that] notf by (auto simp: less_Suc_eq)
        show "\<forall>j<i + 1. \<not> slot_filled xs j" if "nb < 0"
          using "1.prems"(4)[OF that] notf by (auto simp: less_Suc_eq)
      qed
      then show ?thesis by (simp only: keep)
    next
      case (Some info)
      show ?thesis
      proof (cases "state info = st")
        case False
        have notf: "\<not> slot_filled xs i" using False st by (simp add: slot_filled_def Some)
        have keep: "get_next_xfer_loop xs n st i nb ns = get_next_xfer_loop xs n st (i + 1) nb ns"
          by (subst get_next_xfer_loop.simps) (simp add: True Some False)
        have "case get_next_xfer_loop xs n st (i + 1) nb ns of
             None \<Rightarrow> \<forall>j<n. \<not> slot_filled xs j
           | Some k \<Rightarrow> k < n \<and> slot_filled xs k \<and>
               (\<forall>j<n. slot_filled xs j \<longrightarrow> slot_seq xs k \<le> slot_seq xs j)"
        proof (rule "1.IH"(4)[OF True Some False st])
          show "i + 1 \<le> n" using True by simp
          show "nat nb < i + 1 \<and> slot_filled xs (nat nb) \<and> slot_seq xs (nat nb) = ns \<and>
             (\<forall>j<i + 1. slot_filled xs j \<longrightarrow> ns \<le> slot_seq xs j)" if "0 \<le> nb"
            using "1.prems"(3)[OF that] notf by (auto simp: less_Suc_eq)
          show "\<forall>j<i + 1. \<not> slot_filled xs j" if "nb < 0"
            using "1.prems"(4)[OF that] notf by (auto simp: less_Suc_eq)
        qed
        then show ?thesis by (simp only: keep)
      next
        case same: True
        have isf: "slot_filled xs i" "slot_seq xs i = seq info"
          using same st by (simp_all add: slot_filled_def slot_seq_def Some)
        have ne: "st \<noteq> BUF_EMPTY" using st by simp
        show ?thesis
        proof (cases "seq info < ns \<or> nb < 0")
          case better: True
          have take: "get_next_xfer_loop xs n st i nb ns =
                      get_next_xfer_loop xs n st (i + 1) (int i) (seq info)"
            by (subst get_next_xfer_loop.simps) (simp add: True Some same ne better)
          have "case get_next_xfer_loop xs n st (i + 1) (int i) (seq info) of
               None \<Rightarrow> \<forall>j<n. \<not> slot_filled xs j
             | Some k \<Rightarrow> k < n \<and> slot_filled xs k \<and>
                 (\<forall>j<n. slot_filled xs j \<longrightarrow> slot_seq xs k \<le> slot_seq xs j)"
          proof (rule "1.IH"(2)[OF True Some same ne better st])
            show "i + 1 \<le> n" using True by simp
            have older: "seq info \<le> slot_seq xs j" if "j < i" "slot_filled xs j" for j
            proof (cases "nb < 0")
              case True
              then show ?thesis using "1.prems"(4) that by blast
            next
              case False
              then have "ns \<le> slot_seq xs j" "seq info < ns"
                using "1.prems"(3) that better by auto
              then show ?thesis by simp
            qed
            show "nat (int i) < i + 1 \<and> slot_filled xs (nat (int i)) \<and>
                  slot_seq xs (nat (int i)) = seq info \<and>
                  (\<forall>j<i + 1. slot_filled xs j \<longrightarrow> seq info \<le> slot_seq xs j)"
              using isf older by (auto simp: less_Suc_eq)
            show "\<forall>j<i + 1. \<not> slot_filled xs j" if "int i < 0"
              using that by simp
          qed
          then show ?thesis by (simp only: take)
        next
          case worse: False
          then have nb: "0 \<le> nb" and le: "ns \<le> seq info" by auto
          have keep: "get_next_xfer_loop xs n st i nb ns = get_next_xfer_loop xs n st (i + 1) nb ns"
            using worse by (subst get_next_xfer_loop.simps) (simp add: True Some same ne)
          have "case get_next_xfer_loop xs n st (i + 1) nb ns of
               None \<Rightarrow> \<forall>j<n. \<not> slot_filled xs j
             | Some k \<Rightarrow> k < n \<and> slot_filled xs k \<and>
                 (\<forall>j<n. slot_filled xs j \<longrightarrow> slot_seq xs k \<le> slot_seq xs j)"
          proof (rule "1.IH"(3)[OF True Some same ne worse st])
            show "i + 1 \<le> n" using True by simp
            show "nat nb < i + 1 \<and> slot_filled xs (nat nb) \<and> slot_seq xs (nat nb) = ns \<and>
               (\<forall>j<i + 1. slot_filled xs j \<longrightarrow> ns \<le> slot_seq xs j)" if "0 \<le> nb"
              using "1.prems"(3)[OF that] le isf by (auto simp: less_Suc_eq)
            show "\<forall>j<i + 1. \<not> slot_filled xs j" if "nb < 0"
              using that nb by simp
          qed
          then show ?thesis by (simp only: keep)
        qed
      qed
    qed
  qed
qed

lemma get_next_filled:
  assumes "xfer d = Some xs"
  shows "case fl2k_get_next_xfer d BUF_FILLED of
           None \<Rightarrow> \<forall>j<unat (xfer_buf_num d). \<not> slot_filled xs j
         | Some k \<Rightarrow> k < unat (xfer_buf_num d) \<and> slot_filled xs k \<and>
             (\<forall>j<unat (xfer_buf_num d). slot_filled xs j \<longrightarrow> slot_seq xs k \<le> slot_seq xs j)"
  unfolding fl2k_get_next_xfer_def assms option.case
  by (rule get_next_filled_loop) simp_all




section \<open>The completion callback\<close>

lemma libusb_callback_underflow:
  assumes "xfer d = Some xs" and "user_data (xs ! idx) = Some info"
    and "status (xs ! idx) = LIBUSB_TRANSFER_COMPLETED" and "async_status d = FL2K_RUNNING"
    and "fl2k_get_next_xfer d BUF_FILLED = None"
    and "reply env (length (calls env)) = (r, z)"
  shows "libusb_callback d idx env =
           Some (if r = LIBUSB_ERROR_NO_DEVICE
                 then (d\<lparr>underflow_cnt := underflow_cnt d + 1, dev_lost := 1,
                         async_status := FL2K_CANCELING, async_cancel := 1\<rparr>,
                       env\<lparr>calls := calls env @ [SubmitTransfer idx, CondSignal, CondSignal],
                           diag := diag env @ [ResubmittedTransfer, CbTransferStatus]\<rparr>)
                 else (d\<lparr>underflow_cnt := underflow_cnt d + 1\<rparr>,
                       env\<lparr>calls := calls env @ [SubmitTransfer idx, CondSignal],
                           diag := diag env @ [ResubmittedTransfer]\<rparr>))"
  using assms
  by (simp add: libusb_callback_def libusb_call_def pthread_cond_signal_def fprintf_stderr_def
      stop_tx_dev_def Let_def)


lemma accepted_from_append:
  "accepted_from rp n (a @ b) = accepted_from rp n a @ accepted_from rp (n + length a) b"
  by (induction a arbitrary: n) simp_all

lemma accepted_submits_extend:
  "accepted_submits (env\<lparr>calls := calls env @ cs, diag := ms\<rparr>) =
     accepted_submits env @ accepted_from (reply env) (length (calls env)) cs"
  by (simp add: accepted_submits_def accepted_from_append)

text \<open>
  C5, as stated, fails in its last clause. The callback does not look at what
  \<open>libusb_submit_transfer\<close> returns, except for \<open>LIBUSB_ERROR_NO_DEVICE\<close>: when libusb
  refuses the resubmission with another error (here \<open>-1\<close>), the callback returns with the
  engine still \<open>FL2K_RUNNING\<close>, the device not marked lost, and no transfer taken by libusb.
\<close>

theorem callback_resubmission_refused:
  "libusb_callback (demo_dev [demo_slot BUF_SUBMITTED 0, demo_slot BUF_EMPTY 0]) 0
       (const_env (- 1) (0, 0, 0, 0)) =
     Some ((demo_dev [demo_slot BUF_SUBMITTED 0, demo_slot BUF_EMPTY 0])\<lparr>underflow_cnt := 1\<rparr>,
           (const_env (- 1) (0, 0, 0, 0))\<lparr>calls := [SubmitTransfer 0, CondSignal],
              diag := [ResubmittedTransfer]\<rparr>) \<and>
   async_status ((demo_dev [demo_slot BUF_SUBMITTED 0, demo_slot BUF_EMPTY 0])\<lparr>underflow_cnt := 1\<rparr>) =
     FL2K_RUNNING \<and>
   dev_lost ((demo_dev [demo_slot BUF_SUBMITTED 0, demo_slot BUF_EMPTY 0])\<lparr>underflow_cnt := 1\<rparr>) = 0 \<and>
   accepted_submits ((const_env (- 1) (0, 0, 0, 0))\<lparr>calls := [SubmitTransfer 0, CondSignal],
              diag := [ResubmittedTransfer]\<rparr>) = []"
  by (simp add: libusb_callback_def fl2k_get_next_xfer_def get_next_xfer_loop.simps
      libusb_call_def pthread_cond_signal_def fprintf_stderr_def const_env_def
      LIBUSB_ERROR_NO_DEVICE_def demo_dev_def demo_slot_def opened_dev_def accepted_submits_def)

text \<open>
  C5, amended. A transfer completes with status \<open>LIBUSB_TRANSFER_COMPLETED\<close> while the
  engine is \<open>FL2K_RUNNING\<close> and no slot of the pool is \<open>BUF_FILLED\<close>. Then the callback
  returns; the first thing it asks of libusb is to submit this very transfer, and it asks
  for no other submission; the pool (buffers and slots) is what it was; the underflow
  counter has gone up by one (in \<open>uint32_t\<close>). The transfer is with libusb again exactly
  when libusb answers 0 to that submission. On \<open>LIBUSB_ERROR_NO_DEVICE\<close> the device is
  marked lost and the engine goes to \<open>FL2K_CANCELING\<close>; on any other answer the engine
  stays \<open>FL2K_RUNNING\<close> and \<open>dev_lost\<close> is untouched.
\<close>

theorem callback_resubmits_on_underflow:
  assumes "xfer d = Some xs" and "length xs = unat (xfer_buf_num d)" and "idx < length xs"
    and "user_data (xs ! idx) = Some info"
    and "status (xs ! idx) = LIBUSB_TRANSFER_COMPLETED" and "async_status d = FL2K_RUNNING"
    and "\<forall>j<length xs. \<not> slot_filled xs j"
  shows "\<exists>d' env' rest.
           libusb_callback d idx env = Some (d', env') \<and>
           xfer d' = Some xs \<and>
           underflow_cnt d' = underflow_cnt d + 1 \<and>
           calls env' = calls env @ SubmitTransfer idx # rest \<and>
           filter is_submit rest = [] \<and>
           accepted_submits env' =
             accepted_submits env @ (if fst (reply env (length (calls env))) = 0 then [idx] else []) \<and>
           (if fst (reply env (length (calls env))) = LIBUSB_ERROR_NO_DEVICE
            then dev_lost d' = 1 \<and> async_status d' = FL2K_CANCELING
            else dev_lost d' = dev_lost d \<and> async_status d' = FL2K_RUNNING)"
proof -
  have none: "fl2k_get_next_xfer d BUF_FILLED = None"
    using get_next_filled[OF assms(1)] assms(2,7)
    by (cases "fl2k_get_next_xfer d BUF_FILLED") auto
  obtain r z where rz: "reply env (length (calls env)) = (r, z)"
    by (cases "reply env (length (calls env))")
  show ?thesis
    unfolding libusb_callback_underflow[OF assms(1,4,5,6) none rz]
    by (cases "r = LIBUSB_ERROR_NO_DEVICE")
      (simp_all add: assms(1,6) is_submit_def accepted_submits_extend rz)
qed

theorem callback_resubmits_on_underflow_witness:
  "libusb_callback (demo_dev [demo_slot BUF_SUBMITTED 0, demo_slot BUF_EMPTY 0]) 0 (const_env 0 (0, 0, 0, 0)) =
     Some ((demo_dev [demo_slot BUF_SUBMITTED 0, demo_slot BUF_EMPTY 0])\<lparr>underflow_cnt := 1\<rparr>,
           (const_env 0 (0, 0, 0, 0))\<lparr>calls := [SubmitTransfer 0, CondSignal],
              diag := [ResubmittedTransfer]\<rparr>) \<and>
   accepted_submits ((const_env 0 (0, 0, 0, 0))\<lparr>calls := [SubmitTransfer 0, CondSignal],
              diag := [ResubmittedTransfer]\<rparr>) = [0]"
proof -
  let ?xs = "[demo_slot BUF_SUBMITTED 0, demo_slot BUF_EMPTY 0]"
  let ?env = "const_env 0 (0, 0, 0, 0)"
  have nf: "\<forall>j<length ?xs. \<not> slot_filled ?xs j"
    by (simp add: slot_filled_def demo_slot_def less_Suc_eq)
  obtain d' env' rest where res: "libusb_callback (demo_dev ?xs) 0 ?env = Some (d', env')"
      "xfer d' = Some ?xs" "underflow_cnt d' = underflow_cnt (demo_dev ?xs) + 1"
      "calls env' = calls ?env @ SubmitTransfer 0 # rest"
      "accepted_submits env' =
         accepted_submits ?env @ (if fst (reply ?env (length (calls ?env))) = 0 then [0] else [])"
    using callback_resubmits_on_underflow[of "demo_dev ?xs" ?xs 0 "\<lparr>seq = 0, state = BUF_SUBMITTED\<rparr>" ?env]
      nf
    by (auto simp: demo_dev_def demo_slot_def opened_dev_def)
  have ev: "libusb_callback (demo_dev ?xs) 0 ?env =
     Some ((demo_dev ?xs)\<lparr>underflow_cnt := 1\<rparr>,
           ?env\<lparr>calls := [SubmitTransfer 0, CondSignal], diag := [ResubmittedTransfer]\<rparr>)"
    using res(1)
    by (simp add: libusb_callback_def fl2k_get_next_xfer_def get_next_xfer_loop.simps
        libusb_call_def pthread_cond_signal_def fprintf_stderr_def const_env_def
        LIBUSB_ERROR_NO_DEVICE_def demo_dev_def demo_slot_def opened_dev_def)
  then have "env' = ?env\<lparr>calls := [SubmitTransfer 0, CondSignal], diag := [ResubmittedTransfer]\<rparr>"
    using res(1) by simp
  then have "accepted_submits (?env\<lparr>calls := [SubmitTransfer 0, CondSignal],
       diag := [ResubmittedTransfer]\<rparr>) = [0]"
    using res(5) by (simp add: const_env_def accepted_submits_def)
  then show ?thesis using ev by simp
qed

section \<open>Sequence numbers\<close>












section \<open>Starting a session\<close>

lemma replicate_6: "replicate 6 x = [x, x, x, x, x, x]"
  by (simp add: numeral_eq_Suc)

lemma start_calls_list:
  "start_calls =
     [Malloc 0, Malloc (Suc 0), Malloc (Suc (Suc 0)), Malloc (Suc (Suc (Suc 0))),
      Malloc (Suc (Suc (Suc (Suc 0)))), Malloc (Suc (Suc (Suc (Suc (Suc 0))))),
      SubmitTransfer 0, SubmitTransfer (Suc 0), SubmitTransfer (Suc (Suc 0)),
      SubmitTransfer (Suc (Suc (Suc 0))), ThreadCreate USB_WORKER, ThreadCreate SAMPLE_WORKER]"
  by (simp add: start_calls_def numeral_eq_Suc upt_rec)

text \<open>
  C4. On a freshly opened handle \<open>fl2k_start_tx\<close> succeeds and leaves the engine
  \<open>FL2K_RUNNING\<close>. Called again on that handle, while the first session is running, it
  does not return \<open>FL2K_ERROR_BUSY\<close>: it returns success, having set up a new transfer
  pool in place of the one in use, submitted four more transfers and created two more
  threads.
\<close>

theorem start_tx_while_running:
  "fl2k_start_tx (Some opened_dev) (Some 0) None 0 (const_env 0 (0, 0, 0, 0)) =
     (FL2K_SUCCESS, Some streaming_dev, (const_env 0 (0, 0, 0, 0))\<lparr>calls := start_calls\<rparr>) \<and>
   async_status streaming_dev = FL2K_RUNNING \<and>
   fl2k_start_tx (Some streaming_dev) (Some 0) None 0
       ((const_env 0 (0, 0, 0, 0))\<lparr>calls := start_calls\<rparr>) =
     (FL2K_SUCCESS, Some streaming_dev,
      (const_env 0 (0, 0, 0, 0))\<lparr>calls := start_calls @ start_calls\<rparr>) \<and>
   fst (fl2k_start_tx (Some streaming_dev) (Some 0) None 0
       ((const_env 0 (0, 0, 0, 0))\<lparr>calls := start_calls\<rparr>)) \<noteq> FL2K_ERROR_BUSY"
  unfolding start_calls_list
  by (simp add: fl2k_start_tx_def alloc_submit_transfers_dev_def alloc_buffers_loop.simps
      submit_loop.simps libusb_call_def const_env_def set_state_def fresh_transfer_def
      DEFAULT_BUF_NUMBER_def opened_dev_def streaming_dev_def fresh_slot_def Let_def replicate_6
      fprintf_stderr_def)

end
